theory Spec2Isabelle
  imports Complex_Main "HOL-Library.Sublist" "HOL-Library.Char_ord" "HOL-Library.List_Lexorder"
    "HOL-Library.Multiset"
begin

section \<open>Python strings\<close>

text \<open>
  A Python \<open>str\<close> is modelled as a \<open>string\<close>; a character stands for a code point below 256.
  \<open>is_space\<close> is \<open>str.isspace\<close> on those code points: tab, line feed, vertical tab, form
  feed, carriage return, the four separators 28..31, the blank, NEL (133) and the no-break
  space (160).
\<close>

definition is_space :: "char \<Rightarrow> bool" where
  "is_space c = ((of_char c :: nat) \<in> {9, 10, 11, 12, 13, 28, 29, 30, 31, 32, 133, 160})"

text \<open>
  \<open>text.split()\<close> without arguments: the maximal runs of characters that are not whitespace,
  in order. \<open>split_aux cur s\<close> scans \<open>s\<close> with the word read so far in \<open>cur\<close>.
\<close>

fun split_aux :: "string \<Rightarrow> string \<Rightarrow> string list" where
  "split_aux cur [] = (if cur = [] then [] else [cur])"
| "split_aux cur (c # cs) =
     (if is_space c then (if cur = [] then split_aux [] cs else cur # split_aux [] cs)
      else split_aux (cur @ [c]) cs)"

definition split :: "string \<Rightarrow> string list" where
  "split s = split_aux [] s"

text \<open>\<open>s.strip()\<close>: whitespace removed at both ends.\<close>

definition lstrip :: "string \<Rightarrow> string" where
  "lstrip s = dropWhile is_space s"

definition rstrip :: "string \<Rightarrow> string" where
  "rstrip s = rev (dropWhile is_space (rev s))"

definition strip :: "string \<Rightarrow> string" where
  "strip s = lstrip (rstrip s)"

text \<open>\<open>' '.join(lines)\<close>.\<close>

fun join_space :: "string list \<Rightarrow> string" where
  "join_space [] = []"
| "join_space [l] = l"
| "join_space (l # l' # ls) = l @ '' '' @ join_space (l' # ls)"

section \<open>make\_story.py: greedy word wrap\<close>

text \<open>
  A font is what \<open>load_font\<close> was asked for: a size and a weight. The rendered width of a
  string, \<open>draw.textlength(s, font=font)\<close>, belongs to the imaging library; it is a parameter
  \<open>tlen\<close> of the model, and its value (a finite float) is the rational it denotes.
\<close>

record font =
  fsize :: int
  fbold :: bool

type_synonym textlength = "font \<Rightarrow> string \<Rightarrow> rat"

text \<open>
  The loop of \<open>wrap_text\<close> over the remaining words, with the lines closed so far and the
  line being built; after the last word the open line is closed when it is not empty.
\<close>

fun wrap_loop :: "textlength \<Rightarrow> font \<Rightarrow> int \<Rightarrow> string list \<Rightarrow> string list \<Rightarrow> string \<Rightarrow> string list" where
  "wrap_loop tlen fnt max_width [] lines cur = (if cur \<noteq> [] then lines @ [cur] else lines)"
| "wrap_loop tlen fnt max_width (w # ws) lines cur =
     (let test = strip (cur @ '' '' @ w);
          tw = tlen fnt test
      in if tw \<le> of_int max_width then wrap_loop tlen fnt max_width ws lines test
         else wrap_loop tlen fnt max_width ws (if cur \<noteq> [] then lines @ [cur] else lines) w)"

definition wrap_text :: "textlength \<Rightarrow> string \<Rightarrow> font \<Rightarrow> int \<Rightarrow> string list" where
  "wrap_text tlen text fnt max_width = wrap_loop tlen fnt max_width (split text) [] []"

section \<open>make\_story.py: cover fit\<close>

datatype error = ZeroDivisionError | ValueError | KeyError | OSError | OverflowError

text \<open>
  Python floats. A finite non-negative float is written \<open>(m, e)\<close> and stands for \<open>m * 2 ^ e\<close>.
  \<open>float_of_ratio n d\<close> is the float nearest to the fraction \<open>n / d\<close> of two non-negative
  integers (\<open>d > 0\<close>), with 53 significant bits and ties to the even significand: the result
  of the true division \<open>n / d\<close> of two ints, and of every IEEE operation whose exact result
  is \<open>n / d\<close>. Exponents are not bounded: the values of \<open>fit_cover\<close> are far from the
  overflow and underflow thresholds. An int below \<open>2 ^ 53\<close> becomes a float without rounding,
  so \<open>a * x\<close> for such an int and a float \<open>x\<close> is the exact product rounded once.
\<close>

type_synonym pyfloat = "int \<times> int"

text \<open>\<open>n.bit_length()\<close> of a non-negative int.\<close>

function bit_length :: "int \<Rightarrow> int" where
  "bit_length n = (if n \<le> 0 then 0 else 1 + bit_length (n div 2))"
  by pat_completeness auto
termination
  by (relation "measure nat") auto

declare bit_length.simps [simp del]

definition round_half_even :: "int \<Rightarrow> int \<Rightarrow> int" where
  "round_half_even num den =
     (let q = num div den; r = num mod den
      in if 2 * r < den then q else if den < 2 * r then q + 1
         else if even q then q else q + 1)"

definition float_of_ratio :: "int \<Rightarrow> int \<Rightarrow> pyfloat" where
  "float_of_ratio n d =
     (let k = bit_length n - bit_length d;
          lg = (if d * 2 ^ nat k \<le> n * 2 ^ nat (- k) then k else k - 1);
          e = lg - 52
      in (round_half_even (n * 2 ^ nat (- e)) (d * 2 ^ nat e), e))"

text \<open>\<open>a / b\<close> on ints, \<open>a * x\<close> on an int and a float, \<open>max\<close> and \<open>int\<close> on floats.\<close>

definition float_div :: "int \<Rightarrow> int \<Rightarrow> pyfloat" where
  "float_div a b = float_of_ratio a b"

definition float_mul :: "int \<Rightarrow> pyfloat \<Rightarrow> pyfloat" where
  "float_mul a x = (case x of (m, e) \<Rightarrow> float_of_ratio (a * m * 2 ^ nat e) (2 ^ nat (- e)))"

definition float_less :: "pyfloat \<Rightarrow> pyfloat \<Rightarrow> bool" where
  "float_less x y =
     (case (x, y) of ((m1, e1), (m2, e2)) \<Rightarrow> m1 * 2 ^ nat (e1 - e2) < m2 * 2 ^ nat (e2 - e1))"

definition float_max :: "pyfloat \<Rightarrow> pyfloat \<Rightarrow> pyfloat" where
  "float_max x y = (if float_less x y then y else x)"

definition int_of_float :: "pyfloat \<Rightarrow> int" where
  "int_of_float x = (case x of (m, e) \<Rightarrow> (m * 2 ^ nat e) div 2 ^ nat (- e))"

text \<open>
  \<open>fit_cover\<close> sees of the image only its size. The result records the size of the resized
  image and the box handed to \<open>img.crop\<close>. The cropped image has the size of the box; its
  pixel \<open>(x, y)\<close> is the pixel \<open>(left + x, top + y)\<close> of the resized image, and where that lies
  outside the resized image the imaging library fills the pixel with zeros (\<open>padded\<close>).
\<close>

record cropped =
  resized_size :: "int \<times> int"
  crop_box :: "int \<times> int \<times> int \<times> int"

definition fit_cover :: "int \<times> int \<Rightarrow> int \<Rightarrow> int \<Rightarrow> error + cropped" where
  "fit_cover img_size w h =
     (case img_size of (iw, ih) \<Rightarrow>
        if iw = 0 \<or> ih = 0 then Inl ZeroDivisionError
        else
          let scale = float_max (float_div w iw) (float_div h ih);
              nw = int_of_float (float_mul iw scale);
              nh = int_of_float (float_mul ih scale)
          in if nw \<le> 0 \<or> nh \<le> 0 then Inl ValueError
             else
               let left = (nw - w) div 2;
                   top_y = (nh - h) div 2
               in Inr \<lparr>resized_size = (nw, nh), crop_box = (left, top_y, left + w, top_y + h)\<rparr>)"

definition out_size :: "cropped \<Rightarrow> int \<times> int" where
  "out_size c = (case crop_box c of (left, top_y, right, bottom_y) \<Rightarrow> (right - left, bottom_y - top_y))"

definition padded :: "cropped \<Rightarrow> int \<Rightarrow> int \<Rightarrow> bool" where
  "padded c x y =
     (case (resized_size c, crop_box c) of ((nw, nh), (left, top_y, right, bottom_y)) \<Rightarrow>
        \<not> (0 \<le> left + x \<and> left + x < nw \<and> 0 \<le> top_y + y \<and> top_y + y < nh))"

section \<open>make\_story.py: render\<close>

definition W :: int where
  "W = 1080"

definition H :: int where
  "H = 1920"

text \<open>
  An item is a JSON object whose values are strings; \<open>item_get item k d\<close> is
  \<open>item.get(k, d)\<close>.
\<close>

type_synonym item = "string \<rightharpoonup> string"

definition item_get :: "item \<Rightarrow> string \<Rightarrow> string \<Rightarrow> string" where
  "item_get item k d = (case item k of None \<Rightarrow> d | Some v \<Rightarrow> v)"

text \<open>
  \<open>load_font\<close> with a TrueType file found at one of its paths: the font of the requested
  size and weight.
\<close>

definition load_font :: "int \<Rightarrow> bool \<Rightarrow> font" where
  "load_font sz bold = \<lparr>fsize = sz, fbold = bold\<rparr>"

text \<open>
  \<open>s.replace(old, new)\<close> for a non-empty \<open>old\<close>: every occurrence of \<open>old\<close>, found from the
  left and not overlapping, is replaced.
\<close>

function replace :: "string \<Rightarrow> string \<Rightarrow> string \<Rightarrow> string" where
  "replace old new [] = []"
| "replace old new (c # cs) =
     (if old \<noteq> [] \<and> prefix old (c # cs)
      then new @ replace old new (drop (length old) (c # cs))
      else c # replace old new cs)"
  by pat_completeness auto
termination
  by (relation "measure (\<lambda>(old, new, s). length s)") auto

text \<open>
  What \<open>render\<close> draws on the canvas: \<open>draw.text(xy, s, font=f, fill=c)\<close> is \<open>Text xy s f c\<close>,
  and the bar composited at \<open>(0, bar_y)\<close> is \<open>Bar size colour xy\<close>.
\<close>

type_synonym rgba = "int \<times> int \<times> int \<times> int"

datatype draw_op =
  Text "int \<times> int" string font rgba
| Bar "int \<times> int" rgba "int \<times> int"

text \<open>
  The loop \<open>for ln in lines: draw.text((margin, y), ln, ...); y += font.size + gap\<close>; it
  returns the operations and the final \<open>y\<close>.
\<close>

fun draw_lines :: "int \<Rightarrow> int \<Rightarrow> font \<Rightarrow> rgba \<Rightarrow> int \<Rightarrow> string list \<Rightarrow> draw_op list \<times> int" where
  "draw_lines margin y fnt fill gap [] = ([], y)"
| "draw_lines margin y fnt fill gap (line # lns) =
     (case draw_lines margin (y + (fsize fnt + gap)) fnt fill gap lns of
        (ops, y') \<Rightarrow> (Text (margin, y) line fnt fill # ops, y'))"

text \<open>The text part of \<open>render\<close> (from \<open>margin = 70\<close> to the footer), in drawing order.\<close>

definition render_text :: "textlength \<Rightarrow> item \<Rightarrow> draw_op list" where
  "render_text tlen item =
     (let title_font = load_font 64 True;
          sub_font = load_font 42 False;
          impact_font = load_font 48 True;
          small_font = load_font 28 False;
          margin = 70;
          maxw = W - 2 * margin;
          y = 140;
          title_lines = take 3 (wrap_text tlen (strip (item_get item ''title'' [])) title_font maxw);
          (title_ops, y) = draw_lines margin y title_font (255, 255, 255, 255) 10 title_lines;
          y = y + 20;
          subtitle = strip (item_get item ''subtitle'' []);
          sub_ops =
            (if subtitle \<noteq> []
             then fst (draw_lines margin y sub_font (230, 230, 230, 255) 8
                         (take 3 (wrap_text tlen subtitle sub_font maxw)))
             else []);
          impact = strip (item_get item ''impact'' []);
          impact_ops =
            (if impact \<noteq> []
             then
               let bar_h = 220;
                   bar_y = H - bar_h - 170;
                   y2 = bar_y + 40
               in Bar (W, bar_h) (0, 0, 0, 170) (0, bar_y) #
                  fst (draw_lines margin y2 impact_font (255, 255, 255, 255) 10
                         (take 3 (wrap_text tlen impact impact_font maxw)))
             else []);
          url = item_get item ''url'' [];
          footer = replace ''http://'' [] (replace ''https://'' [] url)
      in title_ops @ sub_ops @ impact_ops @
         [Text (margin, H - 70) (take 60 footer) small_font (200, 200, 200, 255)])"

text \<open>
  \<open>render\<close>: the screenshot is opened (\<open>open_image\<close> gives its size, or nothing when the
  file cannot be read), fitted to the canvas, and the text is drawn over it.
\<close>

definition render :: "(string \<Rightarrow> (int \<times> int) option) \<Rightarrow> textlength \<Rightarrow> item \<Rightarrow> error + cropped \<times> draw_op list" where
  "render open_image tlen item =
     (case item ''screenshot'' of
        None \<Rightarrow> Inl KeyError
      | Some path \<Rightarrow>
          (case open_image path of
             None \<Rightarrow> Inl OSError
           | Some img_size \<Rightarrow>
               (case fit_cover img_size W H of
                  Inl e \<Rightarrow> Inl e
                | Inr bg \<Rightarrow> Inr (bg, render_text tlen item))))"

text \<open>The strings drawn with a given font, in drawing order.\<close>

fun texts_in :: "font \<Rightarrow> draw_op list \<Rightarrow> string list" where
  "texts_in fnt [] = []"
| "texts_in fnt (Text xy s f fill # ops) = (if f = fnt then s # texts_in fnt ops else texts_in fnt ops)"
| "texts_in fnt (Bar sz colour xy # ops) = texts_in fnt ops"

section \<open>pick\_ai\_news.py\<close>

text \<open>
  A \<open>datetime\<close> in UTC is the number of microseconds since 0001-01-01T00:00:00, the first
  instant the type can hold; the last one is 9999-12-31T23:59:59.999999, and
  \<open>date.max.toordinal()\<close> is 3652059. Aware datetimes compare as these numbers do.
\<close>

type_synonym datetime = int

definition datetime_end :: int where
  "datetime_end = 3652059 * 86400 * 1000000"

text \<open>
  \<open>now - dt.timedelta(hours=hours)\<close>: the timedelta or the difference outside the range of the
  types raises \<open>OverflowError\<close>; the range of \<open>timedelta\<close> (999999999 days either way)
  contains every difference that stays in the range of \<open>datetime\<close>.
\<close>

definition cutoff_of :: "datetime \<Rightarrow> int \<Rightarrow> error + datetime" where
  "cutoff_of now hours =
     (let c = now - hours * 3600 * 1000000
      in if 0 \<le> c \<and> c < datetime_end then Inr c else Inl OverflowError)"

text \<open>
  A feed entry as the feed parser gives it: an attribute that is missing or \<open>None\<close> is
  \<open>None\<close>; a parsed time (a \<open>struct_time\<close>, never falsy) is the datetime that
  \<open>dt.datetime(*t[:6], tzinfo=utc)\<close> makes of it.
\<close>

record entry =
  e_title :: "string option"
  e_link :: "string option"
  e_summary :: "string option"
  published_parsed :: "datetime option"
  updated_parsed :: "datetime option"

record parsed_feed =
  feed_title :: "string option"
  feed_link :: "string option"
  entries :: "entry list"

record candidate =
  title :: string
  url :: string
  source :: string
  published :: "string option"

definition parse_dt :: "entry \<Rightarrow> datetime option" where
  "parse_dt e = (case published_parsed e of Some t \<Rightarrow> Some t | None \<Rightarrow> updated_parsed e)"

text \<open>\<open>x or ''\<close> on an optional string.\<close>

definition or_empty :: "string option \<Rightarrow> string" where
  "or_empty x = (case x of None \<Rightarrow> [] | Some s \<Rightarrow> s)"

text \<open>
  One pass of the body of the inner loop of \<open>main\<close>: the candidate appended for the entry,
  or nothing when a \<open>continue\<close> is taken. \<open>keywords\<close> is \<open>KEYWORDS.search\<close> and \<open>isoformat\<close>
  is \<open>when.isoformat().replace('+00:00','Z')\<close>, both left to the libraries.
\<close>

definition entry_candidate ::
  "(string \<Rightarrow> bool) \<Rightarrow> (datetime \<Rightarrow> string) \<Rightarrow> datetime \<Rightarrow> string \<Rightarrow> entry \<Rightarrow> candidate option" where
  "entry_candidate keywords isoformat cutoff src e =
     (let title = strip (or_empty (e_title e));
          link = strip (or_empty (e_link e));
          summary = strip (or_empty (e_summary e));
          blob = title @ '' '' @ summary
      in if \<not> keywords blob then None
         else
           let when = parse_dt e
           in if (case when of None \<Rightarrow> False | Some t \<Rightarrow> t < cutoff) then None
              else if link = [] then None
              else Some \<lparr>title = title, url = link, source = src,
                         published = (case when of None \<Rightarrow> None | Some t \<Rightarrow> Some (isoformat t))\<rparr>)"

text \<open>\<open>d.feed.get('title') or d.feed.get('link') or url\<close>.\<close>

definition feed_source :: "parsed_feed \<Rightarrow> string \<Rightarrow> string" where
  "feed_source d feed_url =
     (if or_empty (feed_title d) \<noteq> [] then or_empty (feed_title d)
      else if or_empty (feed_link d) \<noteq> [] then or_empty (feed_link d)
      else feed_url)"

text \<open>The nested iteration that fills \<open>cands\<close>: feeds in file order, entries in feed order.\<close>

definition collect ::
  "(string \<Rightarrow> parsed_feed) \<Rightarrow> (string \<Rightarrow> bool) \<Rightarrow> (datetime \<Rightarrow> string) \<Rightarrow> datetime \<Rightarrow> string list \<Rightarrow> candidate list" where
  "collect parse keywords isoformat cutoff feeds =
     concat (map (\<lambda>feed_url.
        let d = parse feed_url; src = feed_source d feed_url
        in List.map_filter (entry_candidate keywords isoformat cutoff src) (entries d)) feeds)"

text \<open>The dedupe loop, with the set \<open>seen\<close> and the list \<open>deduped\<close> built so far.\<close>

fun dedupe_loop :: "string set \<Rightarrow> candidate list \<Rightarrow> candidate list \<Rightarrow> candidate list" where
  "dedupe_loop seen deduped [] = deduped"
| "dedupe_loop seen deduped (c # cs) =
     (if url c \<in> seen then dedupe_loop seen deduped cs
      else dedupe_loop (insert (url c) seen) (deduped @ [c]) cs)"

definition dedupe :: "candidate list \<Rightarrow> candidate list" where
  "dedupe cands = dedupe_loop {} [] cands"

text \<open>
  \<open>deduped.sort(key=lambda x: x['published'] or '', reverse=True)\<close>. Strings compare by code
  points, lexicographically. \<open>list.sort\<close> is stable, and with \<open>reverse=True\<close> it reverses
  the list, sorts it stably in ascending order and reverses the result.
\<close>

definition sort_key_published :: "candidate \<Rightarrow> string" where
  "sort_key_published x = or_empty (published x)"

definition sort_newest_first :: "candidate list \<Rightarrow> candidate list" where
  "sort_newest_first cs = rev (sort_key sort_key_published (rev cs))"

text \<open>\<open>xs[:n]\<close> for an int \<open>n\<close> of either sign.\<close>

definition slice_to :: "int \<Rightarrow> 'a list \<Rightarrow> 'a list" where
  "slice_to n xs = (if 0 \<le> n then take (nat n) xs else take (length xs - nat (- n)) xs)"

text \<open>\<open>main\<close>: the list printed as JSON, or the error raised before the feeds are read.\<close>

definition main_pick ::
  "(string \<Rightarrow> parsed_feed) \<Rightarrow> (string \<Rightarrow> bool) \<Rightarrow> (datetime \<Rightarrow> string) \<Rightarrow> datetime \<Rightarrow> string list \<Rightarrow> int \<Rightarrow> int \<Rightarrow> error + candidate list" where
  "main_pick parse keywords isoformat now feeds hours limit =
     (case cutoff_of now hours of
        Inl err \<Rightarrow> Inl err
      | Inr cutoff \<Rightarrow>
          Inr (slice_to limit (sort_newest_first (dedupe (collect parse keywords isoformat cutoff feeds)))))"

section \<open>gen\_stories\_from\_urls.py\<close>

text \<open>
  The file system is the set of the paths that exist, and \<open>path_join d n\<close> is \<open>d / n\<close>.
  \<open>format_02d i\<close> is \<open>f"{i:02d}"\<close> for \<open>i \<ge> 0\<close> and \<open>shot_name i\<close> is the file name
  \<open>f"shot_{i:02d}.png"\<close>.
\<close>

type_synonym path = string

definition path_join :: "path \<Rightarrow> string \<Rightarrow> path" where
  "path_join d n = d @ ''/'' @ n"

definition digit :: "nat \<Rightarrow> char" where
  "digit d = ''0123456789'' ! d"

fun decimal :: "nat \<Rightarrow> string" where
  "decimal n = (if n < 10 then [digit n] else decimal (n div 10) @ [digit (n mod 10)])"

declare decimal.simps [simp del]

definition format_02d :: "nat \<Rightarrow> string" where
  "format_02d i = (if i < 10 then CHR ''0'' # decimal i else decimal i)"

definition shot_name :: "nat \<Rightarrow> string" where
  "shot_name i = ''shot_'' @ format_02d i @ ''.png''"

text \<open>
  How a run ends: \<open>sys.exit(msg)\<close> writes the message to standard error and ends with status
  1; an exception that nobody catches ends with status 1 as well; falling off the end of
  \<open>main\<close> is status 0. The messages of the script are told apart by a constructor each,
  with the path or return code they print.
\<close>

datatype exit_message =
  FileNotFound path
| ItemsEmpty
| ScreenshotMissing path
| MakeStoryNotFound
| MakeStoryFailed int
| PlaywrightMissing

datatype outcome = Exit exit_message | Raised | Done

fun exit_code :: "outcome \<Rightarrow> int" where
  "exit_code (Exit m) = 1"
| "exit_code Raised = 1"
| "exit_code Done = 0"

text \<open>What the run does to the outside: screenshots taken and the composer started.\<close>

datatype event = Screenshot string path | Composer "item list"

text \<open>
  The command line and the surroundings of a run: the files that exist at the start; what
  \<open>json.loads\<close> makes of the items file (nothing when it raises); how \<open>take_screenshot\<close>
  ends for a URL and a path (nothing when it returns, having written the file); whether
  \<open>make_story.py\<close> is beside the script; and the return code of the composer.
\<close>

record args =
  a_items :: path
  a_shots_dir :: path
  a_out_dir :: path
  a_skip_screenshots :: bool

record env =
  files :: "path set"
  read_items :: "path \<Rightarrow> item list option"
  take_screenshot :: "string \<Rightarrow> path \<Rightarrow> outcome option"
  make_story_exists :: bool
  run_make_story :: "item list \<Rightarrow> int"

text \<open>Step 2, the loop \<open>for i, item in enumerate(items, start=1)\<close> that takes the screenshots.\<close>

fun capture_loop ::
  "env \<Rightarrow> path \<Rightarrow> nat \<Rightarrow> item list \<Rightarrow> path set \<Rightarrow> event list \<Rightarrow> (outcome + path set) \<times> event list" where
  "capture_loop en shots_dir i [] fs tr = (Inr fs, tr)"
| "capture_loop en shots_dir i (item # items) fs tr =
     (let url = strip (item_get item ''url'' [])
      in if url = [] then capture_loop en shots_dir (i + 1) items fs tr
         else
           let out_path = path_join shots_dir (shot_name i)
           in case take_screenshot en url out_path of
                Some out \<Rightarrow> (Inl out, tr)
              | None \<Rightarrow>
                  capture_loop en shots_dir (i + 1) items (insert out_path fs)
                    (tr @ [Screenshot url out_path]))"

definition capture_phase :: "env \<Rightarrow> args \<Rightarrow> item list \<Rightarrow> (outcome + path set) \<times> event list" where
  "capture_phase en ar items =
     (if a_skip_screenshots ar then (Inr (files en), [])
      else capture_loop en (a_shots_dir ar) 1 items (files en) [])"

text \<open>Step 3, the loop that builds \<open>augmented\<close>, over the files left by step 2.\<close>

fun augment_loop :: "path \<Rightarrow> path set \<Rightarrow> nat \<Rightarrow> item list \<Rightarrow> item list \<Rightarrow> exit_message + item list" where
  "augment_loop shots_dir fs i [] augmented = Inr augmented"
| "augment_loop shots_dir fs i (item # items) augmented =
     (let shot_path = path_join shots_dir (shot_name i)
      in if shot_path \<notin> fs then Inl (ScreenshotMissing shot_path)
         else augment_loop shots_dir fs (i + 1) items
                (augmented @ [item(''screenshot'' \<mapsto> shot_path)]))"

text \<open>\<open>main\<close> of the orchestrator: how the run ends, and what it did to the outside.\<close>

definition main_gen :: "env \<Rightarrow> args \<Rightarrow> outcome \<times> event list" where
  "main_gen en ar =
     (let items_path = a_items ar
      in if items_path \<notin> files en then (Exit (FileNotFound items_path), [])
         else
           case read_items en items_path of
             None \<Rightarrow> (Raised, [])
           | Some items \<Rightarrow>
               if items = [] then (Exit ItemsEmpty, [])
               else
                 case capture_phase en ar items of
                   (Inl out, tr) \<Rightarrow> (out, tr)
                 | (Inr fs, tr) \<Rightarrow>
                     (case augment_loop (a_shots_dir ar) fs 1 items [] of
                        Inl msg \<Rightarrow> (Exit msg, tr)
                      | Inr augmented \<Rightarrow>
                          if \<not> make_story_exists en then (Exit MakeStoryNotFound, tr)
                          else
                            let returncode = run_make_story en augmented
                            in if returncode \<noteq> 0
                               then (Exit (MakeStoryFailed returncode), tr @ [Composer augmented])
                               else (Done, tr @ [Composer augmented])))"

section \<open>Facts about \<open>split\<close> and \<open>strip\<close>\<close>

lemma split_aux_words:
  "\<forall>c \<in> set cur. \<not> is_space c \<Longrightarrow>
   \<forall>w \<in> set (split_aux cur s). w \<noteq> [] \<and> (\<forall>c \<in> set w. \<not> is_space c)"
proof (induction s arbitrary: cur)
  case Nil
  then show ?case by simp
next
  case (Cons a s)
  have e: "\<forall>w \<in> set (split_aux [] s). w \<noteq> [] \<and> (\<forall>c \<in> set w. \<not> is_space c)"
    using Cons.IH [of "[]"] by simp
  show ?case
  proof (cases "is_space a")
    case True
    then show ?thesis using e Cons.prems by simp
  next
    case False
    then have "\<forall>c \<in> set (cur @ [a]). \<not> is_space c" using Cons.prems by simp
    from Cons.IH [OF this] show ?thesis using False by simp
  qed
qed

lemma split_words: "w \<in> set (split s) \<Longrightarrow> w \<noteq> [] \<and> (\<forall>c \<in> set w. \<not> is_space c)"
  unfolding split_def using split_aux_words [of "[]" s] by simp

lemma split_aux_all_space: "\<forall>c \<in> set s. is_space c \<Longrightarrow> split_aux [] s = []"
  by (induction s) simp_all

lemma split_all_space: "\<forall>c \<in> set s. is_space c \<Longrightarrow> split s = []"
  by (simp add: split_def split_aux_all_space)

lemma split_aux_no_space:
  "\<forall>c \<in> set w. \<not> is_space c \<Longrightarrow> split_aux cur w = (if cur @ w = [] then [] else [cur @ w])"
  by (induction w arbitrary: cur) simp_all

lemma split_word: "w \<noteq> [] \<Longrightarrow> \<forall>c \<in> set w. \<not> is_space c \<Longrightarrow> split w = [w]"
  by (simp add: split_def split_aux_no_space)

lemma split_aux_append_space:
  "is_space c \<Longrightarrow> split_aux cur (a @ c # b) = split_aux cur a @ split_aux [] b"
  by (induction a arbitrary: cur) simp_all

lemma split_append_space: "split (a @ '' '' @ b) = split a @ split b"
proof -
  have "is_space CHR '' ''" by (simp add: is_space_def)
  then show ?thesis
    unfolding split_def using split_aux_append_space [of "CHR '' ''" "[]" a b] by simp
qed

lemma split_aux_trailing:
  "\<forall>c \<in> set t. is_space c \<Longrightarrow> split_aux cur (s @ t) = split_aux cur s"
proof (induction s arbitrary: cur)
  case Nil
  then show ?case
    by (cases t) (simp_all add: split_aux_all_space)
next
  case (Cons a s)
  then show ?case by simp
qed

lemma split_lstrip: "split (lstrip s) = split s"
  unfolding split_def lstrip_def by (induction s) simp_all

lemma rstrip_decomp: "\<exists>t. s = rstrip s @ t \<and> (\<forall>c \<in> set t. is_space c)"
proof -
  have "rev (dropWhile is_space (rev s)) @ rev (takeWhile is_space (rev s)) =
        rev (takeWhile is_space (rev s) @ dropWhile is_space (rev s))"
    by (simp only: rev_append)
  also have "\<dots> = s"
    by (simp only: takeWhile_dropWhile_id rev_rev_ident)
  finally have "s = rstrip s @ rev (takeWhile is_space (rev s))"
    by (simp only: rstrip_def)
  moreover have "\<forall>c \<in> set (rev (takeWhile is_space (rev s))). is_space c"
    by (auto dest: set_takeWhileD)
  ultimately show ?thesis by blast
qed

lemma split_rstrip: "split (rstrip s) = split s"
proof -
  obtain t where t: "s = rstrip s @ t" "\<forall>c \<in> set t. is_space c"
    using rstrip_decomp by blast
  have "split_aux [] (rstrip s @ t) = split_aux [] (rstrip s)"
    by (rule split_aux_trailing [OF t(2)])
  with t(1) show ?thesis by (simp add: split_def)
qed

lemma split_strip: "split (strip s) = split s"
  by (simp add: strip_def split_lstrip split_rstrip)

section \<open>Facts about the wrap loop\<close>

lemma wrap_loop_nonempty:
  "\<forall>l \<in> set lines. l \<noteq> [] \<Longrightarrow> \<forall>l \<in> set (wrap_loop tlen fnt mw ws lines cur). l \<noteq> []"
proof (induction ws arbitrary: lines cur)
  case Nil
  then show ?case by simp
next
  case (Cons w ws)
  let ?test = "strip (cur @ '' '' @ w)"
  show ?case
  proof (cases "tlen fnt ?test \<le> of_int mw")
    case True
    then have eq: "wrap_loop tlen fnt mw (w # ws) lines cur = wrap_loop tlen fnt mw ws lines ?test"
      by (simp add: Let_def)
    show ?thesis
      unfolding eq by (rule Cons.IH [OF Cons.prems])
  next
    case False
    let ?lines = "if cur \<noteq> [] then lines @ [cur] else lines"
    have l2: "\<forall>l \<in> set ?lines. l \<noteq> []"
      using Cons.prems by simp
    from False have eq: "wrap_loop tlen fnt mw (w # ws) lines cur = wrap_loop tlen fnt mw ws ?lines w"
      by (simp add: Let_def)
    show ?thesis
      unfolding eq by (rule Cons.IH [OF l2])
  qed
qed

lemma wrap_loop_width:
  assumes "\<forall>l \<in> set lines. tlen fnt l \<le> of_int mw \<or> l \<in> Ws"
    and "cur = [] \<or> tlen fnt cur \<le> of_int mw \<or> cur \<in> Ws"
    and "set ws \<subseteq> Ws"
  shows "\<forall>l \<in> set (wrap_loop tlen fnt mw ws lines cur). tlen fnt l \<le> of_int mw \<or> l \<in> Ws"
  using assms
proof (induction ws arbitrary: lines cur)
  case Nil
  then show ?case by auto
next
  case (Cons w ws)
  let ?test = "strip (cur @ '' '' @ w)"
  have ws: "set ws \<subseteq> Ws" and w: "w \<in> Ws"
    using Cons.prems(3) by simp_all
  show ?case
  proof (cases "tlen fnt ?test \<le> of_int mw")
    case True
    then have eq: "wrap_loop tlen fnt mw (w # ws) lines cur = wrap_loop tlen fnt mw ws lines ?test"
      by (simp add: Let_def)
    have c: "?test = [] \<or> tlen fnt ?test \<le> of_int mw \<or> ?test \<in> Ws"
      using True by blast
    show ?thesis
      unfolding eq by (rule Cons.IH [OF Cons.prems(1) c ws])
  next
    case False
    let ?lines = "if cur \<noteq> [] then lines @ [cur] else lines"
    have l2: "\<forall>l \<in> set ?lines. tlen fnt l \<le> of_int mw \<or> l \<in> Ws"
      using Cons.prems(1,2) by auto
    have c: "w = [] \<or> tlen fnt w \<le> of_int mw \<or> w \<in> Ws"
      using w by blast
    from False have eq: "wrap_loop tlen fnt mw (w # ws) lines cur = wrap_loop tlen fnt mw ws ?lines w"
      by (simp add: Let_def)
    show ?thesis
      unfolding eq by (rule Cons.IH [OF l2 c ws])
  qed
qed

lemma wrap_loop_words:
  assumes "\<forall>w \<in> set ws. w \<noteq> [] \<and> (\<forall>c \<in> set w. \<not> is_space c)"
  shows "concat (map split (wrap_loop tlen fnt mw ws lines cur)) =
         concat (map split lines) @ split cur @ ws"
  using assms
proof (induction ws arbitrary: lines cur)
  case Nil
  show ?case by (simp add: split_def)
next
  case (Cons w ws)
  let ?test = "strip (cur @ '' '' @ w)"
  have ws: "\<forall>w \<in> set ws. w \<noteq> [] \<and> (\<forall>c \<in> set w. \<not> is_space c)"
    using Cons.prems by simp
  have w: "split w = [w]"
    using Cons.prems by (simp add: split_word)
  show ?case
  proof (cases "tlen fnt ?test \<le> of_int mw")
    case True
    then have eq: "wrap_loop tlen fnt mw (w # ws) lines cur = wrap_loop tlen fnt mw ws lines ?test"
      by (simp add: Let_def)
    have "split ?test = split cur @ [w]"
      by (simp only: split_strip split_append_space w)
    then show ?thesis
      unfolding eq Cons.IH [OF ws] by simp
  next
    case False
    let ?lines = "if cur \<noteq> [] then lines @ [cur] else lines"
    from False have eq: "wrap_loop tlen fnt mw (w # ws) lines cur = wrap_loop tlen fnt mw ws ?lines w"
      by (simp add: Let_def)
    have "concat (map split ?lines) = concat (map split lines) @ split cur"
      by (simp add: split_def)
    then show ?thesis
      unfolding eq Cons.IH [OF ws] by (simp add: w)
  qed
qed

lemma split_join_space: "split (join_space ls) = concat (map split ls)"
proof (induction ls rule: join_space.induct)
  case 1
  show ?case by (simp add: split_def)
next
  case (2 l)
  show ?case by simp
next
  case (3 l l' ls)
  have "split (join_space (l # l' # ls)) = split l @ split (join_space (l' # ls))"
    by (simp only: join_space.simps split_append_space)
  then show ?case using 3 by simp
qed

lemma prefix_concat_take: "prefix (concat (take n xs)) (concat xs)"
proof -
  have "concat xs = concat (take n xs) @ concat (drop n xs)"
    by (simp only: concat_append [symmetric] append_take_drop_id)
  then show ?thesis by (simp only: prefixI)
qed


lemma wrap_text_concat_split: "concat (map split (wrap_text tlen text fnt mw)) = split text"
proof -
  have "\<forall>w \<in> set (split text). w \<noteq> [] \<and> (\<forall>c \<in> set w. \<not> is_space c)"
    using split_words by blast
  from wrap_loop_words [OF this, of tlen fnt mw "[]" "[]"] show ?thesis
    by (simp add: wrap_text_def split_def)
qed

section \<open>Facts about the cover fit\<close>

lemma bit_length_eq: "2 ^ k \<le> n \<Longrightarrow> n < 2 ^ Suc k \<Longrightarrow> bit_length n = int (Suc k)"
proof (induction k arbitrary: n)
  case 0
  then have "n = 1" by simp
  then show ?case by (simp add: bit_length.simps)
next
  case (Suc k)
  have pos: "\<not> n \<le> 0"
  proof -
    have "(0::int) < 2 ^ Suc k" by simp
    with Suc.prems(1) show ?thesis by linarith
  qed
  have "2 ^ k \<le> n div 2" using Suc.prems(1) by simp
  moreover have "n div 2 < 2 ^ Suc k" using Suc.prems(2) by simp
  ultimately have "bit_length (n div 2) = int (Suc k)" by (rule Suc.IH)
  then show ?case
    using pos bit_length.simps [of n] by simp
qed

text \<open>
  Two values every Python session shows: \<open>1 / 10\<close> is \<open>0x1.999999999999ap-4\<close>, and
  \<open>3 * 0.1\<close> is \<open>0.30000000000000004\<close>, that is \<open>0x1.3333333333334p-2\<close>.
\<close>

lemma float_div_1_10: "float_div 1 10 = (7205759403792794, - 56)"
proof -
  have "bit_length 1 = 1" using bit_length_eq [of 0 1] by simp
  moreover have "bit_length 10 = 4" using bit_length_eq [of 3 10] by simp
  ultimately show ?thesis
    by (simp add: float_div_def float_of_ratio_def round_half_even_def Let_def)
qed

lemma float_mul_3_tenth: "float_mul 3 (7205759403792794, - 56) = (5404319552844596, - 54)"
proof -
  have "bit_length 21617278211378382 = 55" using bit_length_eq [of 54 21617278211378382] by simp
  moreover have "bit_length 72057594037927936 = 57" using bit_length_eq [of 56 72057594037927936] by simp
  ultimately show ?thesis
    by (simp add: float_mul_def float_of_ratio_def round_half_even_def Let_def)
qed

lemma float_div_1920_440: "float_div 1920 440 = (4913017775313268, - 50)"
proof -
  have "bit_length 1920 = 11" using bit_length_eq [of 10 1920] by simp
  moreover have "bit_length 440 = 9" using bit_length_eq [of 8 440] by simp
  ultimately show ?thesis
    by (simp add: float_div_def float_of_ratio_def round_half_even_def Let_def)
qed

lemma float_div_1080_800: "float_div 1080 800 = (6079859496950170, - 52)"
proof -
  have "bit_length 1080 = 11" using bit_length_eq [of 10 1080] by simp
  moreover have "bit_length 800 = 10" using bit_length_eq [of 9 800] by simp
  ultimately show ?thesis
    by (simp add: float_div_def float_of_ratio_def round_half_even_def Let_def)
qed

lemma scale_800_440: "float_max (float_div 1080 800) (float_div 1920 440) = (4913017775313268, - 50)"
  by (simp add: float_div_1920_440 float_div_1080_800 float_max_def float_less_def)

lemma float_mul_440: "float_mul 440 (4913017775313268, - 50) = (8444249301319679, - 42)"
proof -
  have "bit_length 2161727821137837920 = 61" using bit_length_eq [of 60 2161727821137837920] by simp
  moreover have "bit_length 1125899906842624 = 51" using bit_length_eq [of 50 1125899906842624] by simp
  ultimately show ?thesis
    by (simp add: float_mul_def float_of_ratio_def round_half_even_def Let_def)
qed

lemma float_mul_800: "float_mul 800 (4913017775313268, - 50) = (7676590273926981, - 41)"
proof -
  have "bit_length 3930414220250614400 = 62" using bit_length_eq [of 61 3930414220250614400] by simp
  moreover have "bit_length 1125899906842624 = 51" using bit_length_eq [of 50 1125899906842624] by simp
  ultimately show ?thesis
    by (simp add: float_mul_def float_of_ratio_def round_half_even_def Let_def)
qed

lemma fit_cover_out_size: "fit_cover img_size w h = Inr c \<Longrightarrow> out_size c = (w, h)"
  by (cases img_size) (auto simp: fit_cover_def out_size_def Let_def split: if_splits)

section \<open>Facts about the drawing operations\<close>

lemma texts_in_append: "texts_in fnt (ops @ ops') = texts_in fnt ops @ texts_in fnt ops'"
  by (induction fnt ops rule: texts_in.induct) simp_all

lemma texts_in_draw_lines_same:
  "texts_in fnt (fst (draw_lines margin y fnt fill gap lns)) = lns"
  by (induction lns arbitrary: y) (simp_all add: case_prod_beta)

lemma texts_in_draw_lines_other:
  "fnt \<noteq> fnt' \<Longrightarrow> texts_in fnt' (fst (draw_lines margin y fnt fill gap lns)) = []"
  by (induction lns arbitrary: y) (simp_all add: case_prod_beta)

lemma wrap_text_empty: "wrap_text tlen [] fnt mw = []"
  by (simp add: wrap_text_def split_def)

section \<open>Facts about the feed picker\<close>

lemma dedupe_loop_acc: "dedupe_loop seen deduped cs = deduped @ dedupe_loop seen [] cs"
proof (induction cs arbitrary: seen deduped)
  case Nil
  show ?case by simp
next
  case (Cons c cs)
  show ?case
  proof (cases "url c \<in> seen")
    case True
    then show ?thesis using Cons.IH [of seen deduped] by simp
  next
    case False
    then show ?thesis
      using Cons.IH [of "insert (url c) seen" "deduped @ [c]"] Cons.IH [of "insert (url c) seen" "[c]"]
      by simp
  qed
qed

lemma dedupe_loop_Cons:
  "dedupe_loop seen [] (c # cs) =
     (if url c \<in> seen then dedupe_loop seen [] cs else c # dedupe_loop (insert (url c) seen) [] cs)"
  using dedupe_loop_acc [of "insert (url c) seen" "[c]" cs] by simp

lemma dedupe_loop_urls: "url ` set (dedupe_loop seen [] cs) = url ` set cs - seen"
proof (induction cs arbitrary: seen)
  case Nil
  show ?case by simp
next
  case (Cons c cs)
  show ?case
    unfolding dedupe_loop_Cons using Cons.IH [of seen] Cons.IH [of "insert (url c) seen"] by auto
qed

lemma dedupe_loop_distinct: "distinct (map url (dedupe_loop seen [] cs))"
proof (induction cs arbitrary: seen)
  case Nil
  show ?case by simp
next
  case (Cons c cs)
  have "url c \<notin> url ` set (dedupe_loop (insert (url c) seen) [] cs)"
    unfolding dedupe_loop_urls by simp
  then show ?case
    unfolding dedupe_loop_Cons using Cons.IH [of seen] Cons.IH [of "insert (url c) seen"] by simp
qed

lemma dedupe_loop_first:
  "c \<in> set (dedupe_loop seen [] cs) \<Longrightarrow> find (\<lambda>x. url x = url c) cs = Some c"
proof (induction cs arbitrary: seen)
  case Nil
  then show ?case by simp
next
  case (Cons x xs)
  show ?case
  proof (cases "url x \<in> seen")
    case True
    have m: "c \<in> set (dedupe_loop seen [] xs)"
      using Cons.prems True unfolding dedupe_loop_Cons by simp
    then have "url c \<in> url ` set xs - seen"
      unfolding dedupe_loop_urls [symmetric] by (rule imageI)
    with True have "url x \<noteq> url c" by auto
    with Cons.IH [OF m] show ?thesis by simp
  next
    case False
    have "c = x \<or> c \<in> set (dedupe_loop (insert (url x) seen) [] xs)"
      using Cons.prems False unfolding dedupe_loop_Cons by simp
    then show ?thesis
    proof
      assume "c = x"
      then show ?thesis by simp
    next
      assume m: "c \<in> set (dedupe_loop (insert (url x) seen) [] xs)"
      then have "url c \<in> url ` set xs - insert (url x) seen"
        unfolding dedupe_loop_urls [symmetric] by (rule imageI)
      then have "url x \<noteq> url c" by auto
      with Cons.IH [OF m] show ?thesis by simp
    qed
  qed
qed

lemma dedupe_loop_subseq: "subseq (dedupe_loop seen [] cs) cs"
proof (induction cs arbitrary: seen)
  case Nil
  show ?case by simp
next
  case (Cons c cs)
  show ?case
    unfolding dedupe_loop_Cons using Cons.IH [of seen] Cons.IH [of "insert (url c) seen"]
    by (simp add: list_emb_Cons)
qed

lemma sort_newest_first_mset: "mset (sort_newest_first cs) = mset cs"
  by (simp add: sort_newest_first_def)

lemma sort_newest_first_sorted: "sorted (rev (map sort_key_published (sort_newest_first cs)))"
  by (simp add: sort_newest_first_def rev_map [symmetric])

lemma sort_newest_first_stable:
  "filter (\<lambda>c. sort_key_published c = k) (sort_newest_first cs) =
   filter (\<lambda>c. sort_key_published c = k) cs"
proof -
  have "filter (\<lambda>c. sort_key_published c = k) (sort_newest_first cs) =
        rev (filter (\<lambda>c. sort_key_published c = k) (sort_key sort_key_published (rev cs)))"
    by (simp only: sort_newest_first_def rev_filter)
  also have "\<dots> = rev (filter (\<lambda>c. sort_key_published c = k) (rev cs))"
    by (simp only: sort_key_stable)
  also have "\<dots> = filter (\<lambda>c. sort_key_published c = k) cs"
    by (simp only: rev_filter rev_rev_ident)
  finally show ?thesis .
qed

lemma slice_to_sublist: "set (slice_to n xs) \<subseteq> set xs \<and> (distinct (map f xs) \<longrightarrow> distinct (map f (slice_to n xs)))"
  by (auto simp: slice_to_def take_map [symmetric] dest: in_set_takeD)

lemma sort_newest_first_none_last:
  assumes i: "i < length (sort_newest_first cs)" and j: "j < length (sort_newest_first cs)"
    and n: "published (sort_newest_first cs ! i) = None"
    and s: "sort_key_published (sort_newest_first cs ! j) \<noteq> []"
  shows "j < i"
proof (rule ccontr)
  assume "\<not> j < i"
  then have le: "i \<le> j" by simp
  let ?ks = "map sort_key_published (sort_newest_first cs)"
  have srt: "sorted (rev ?ks)" by (rule sort_newest_first_sorted)
  have jl: "j < length ?ks" using j by simp
  have "?ks ! j \<le> ?ks ! i" by (rule sorted_rev_nth_mono [OF srt le jl])
  then have "sort_key_published (sort_newest_first cs ! j) \<le> sort_key_published (sort_newest_first cs ! i)"
    using i j by simp
  moreover have "sort_key_published (sort_newest_first cs ! i) = []"
    using n by (simp add: sort_key_published_def or_empty_def)
  ultimately show False using s by simp
qed

lemma slice_to_take: "\<exists>m. slice_to n xs = take m xs"
  by (cases "0 \<le> n") (auto simp: slice_to_def)

lemma descending_take:
  assumes "sorted (rev (map f xs))"
  shows "sorted (rev (map f (take m xs)))"
proof -
  have "rev (map f (take m xs)) = rev (take m (map f xs))"
    by (simp add: take_map)
  also have "\<dots> = drop (length (map f xs) - m) (rev (map f xs))"
    by (rule rev_take)
  finally have "rev (map f (take m xs)) = drop (length (map f xs) - m) (rev (map f xs))" .
  with assms show ?thesis by (simp only: sorted_wrt_drop)
qed

lemma descending_none_last:
  assumes srt: "sorted (rev (map sort_key_published xs))"
    and i: "i < length xs" and j: "j < length xs"
    and n: "published (xs ! i) = None"
    and s: "sort_key_published (xs ! j) \<noteq> []"
  shows "j < i"
proof (rule ccontr)
  assume "\<not> j < i"
  then have le: "i \<le> j" by simp
  have jl: "j < length (map sort_key_published xs)" using j by simp
  have "map sort_key_published xs ! j \<le> map sort_key_published xs ! i"
    by (rule sorted_rev_nth_mono [OF srt le jl])
  then have "sort_key_published (xs ! j) \<le> sort_key_published (xs ! i)"
    using i j by simp
  moreover have "sort_key_published (xs ! i) = []"
    using n by (simp add: sort_key_published_def or_empty_def)
  ultimately show False using s by simp
qed

lemma filter_take_prefix: "prefix (filter P (take m xs)) (filter P xs)"
proof -
  have "filter P xs = filter P (take m xs) @ filter P (drop m xs)"
    by (simp only: filter_append [symmetric] append_take_drop_id)
  then show ?thesis by (simp only: prefixI)
qed

lemma in_set_map_filter: "(y \<in> set (List.map_filter f xs)) = (\<exists>x \<in> set xs. f x = Some y)"
  by (induction xs) (auto split: option.splits)

lemma set_collect:
  "(c \<in> set (collect parse keywords isoformat cutoff feeds)) =
   (\<exists>u \<in> set feeds. \<exists>e \<in> set (entries (parse u)).
      entry_candidate keywords isoformat cutoff (feed_source (parse u) u) e = Some c)"
  by (simp add: collect_def Let_def in_set_map_filter)

lemma main_pick_Inr:
  "(main_pick parse keywords isoformat now feeds hours limit = Inr out) =
   (\<exists>cutoff. cutoff_of now hours = Inr cutoff \<and>
      out = slice_to limit (sort_newest_first (dedupe (collect parse keywords isoformat cutoff feeds))))"
  by (cases "cutoff_of now hours") (auto simp: main_pick_def)

lemma cutoff_of_Inr:
  "(cutoff_of now hours = Inr cutoff) =
   (cutoff = now - hours * 3600 * 1000000 \<and> 0 \<le> cutoff \<and> cutoff < datetime_end)"
  by (auto simp: cutoff_of_def Let_def)

section \<open>Facts about the orchestrator\<close>

lemma augment_loop_missing:
  "k < length items \<Longrightarrow> path_join d (shot_name (i + k)) \<notin> fs \<Longrightarrow>
   \<exists>j \<le> k. augment_loop d fs i items aug = Inl (ScreenshotMissing (path_join d (shot_name (i + j))))"
proof (induction items arbitrary: i k aug)
  case Nil
  then show ?case by simp
next
  case (Cons x xs)
  show ?case
  proof (cases "path_join d (shot_name i) \<in> fs")
    case False
    then have "augment_loop d fs i (x # xs) aug = Inl (ScreenshotMissing (path_join d (shot_name (i + 0))))"
      by (simp add: Let_def)
    then show ?thesis by blast
  next
    case True
    with Cons.prems(2) have "k \<noteq> 0" by (cases k) auto
    then obtain k' where k: "k = Suc k'" by (cases k) auto
    with Cons.prems have "k' < length xs" and "path_join d (shot_name (i + 1 + k')) \<notin> fs"
      by simp_all
    from Cons.IH [OF this, of "aug @ [x(''screenshot'' \<mapsto> path_join d (shot_name i))]"]
    obtain j' where j': "j' \<le> k'"
      "augment_loop d fs (i + 1) xs (aug @ [x(''screenshot'' \<mapsto> path_join d (shot_name i))]) =
         Inl (ScreenshotMissing (path_join d (shot_name (i + 1 + j'))))"
      by blast
    have "augment_loop d fs i (x # xs) aug =
            Inl (ScreenshotMissing (path_join d (shot_name (i + Suc j'))))"
      using True j'(2) by (simp add: Let_def)
    moreover have "Suc j' \<le> k" using j'(1) k by simp
    ultimately show ?thesis by blast
  qed
qed

lemma capture_loop_no_composer:
  "capture_loop en d i items fs tr = (r, tr') \<Longrightarrow> \<forall>a. Composer a \<notin> set tr \<Longrightarrow>
   \<forall>a. Composer a \<notin> set tr'"
proof (induction items arbitrary: i fs tr)
  case Nil
  then show ?case by simp
next
  case (Cons x xs)
  let ?url = "strip (item_get x ''url'' [])"
  let ?out = "path_join d (shot_name i)"
  show ?case
  proof (cases "?url = []")
    case True
    with Cons.prems(1) have "capture_loop en d (i + 1) xs fs tr = (r, tr')"
      by (simp add: Let_def)
    from Cons.IH [OF this Cons.prems(2)] show ?thesis .
  next
    case False
    show ?thesis
    proof (cases "take_screenshot en ?url ?out")
      case (Some out)
      with False Cons.prems(1) have "tr' = tr" by (simp add: Let_def)
      with Cons.prems(2) show ?thesis by simp
    next
      case None
      with False Cons.prems(1)
      have c: "capture_loop en d (i + 1) xs (insert ?out fs) (tr @ [Screenshot ?url ?out]) = (r, tr')"
        by (simp add: Let_def)
      have "\<forall>a. Composer a \<notin> set (tr @ [Screenshot ?url ?out])"
        using Cons.prems(2) by simp
      from Cons.IH [OF c this] show ?thesis .
    qed
  qed
qed

lemma capture_phase_no_composer:
  "capture_phase en ar items = (r, tr) \<Longrightarrow> \<forall>a. Composer a \<notin> set tr"
proof (cases "a_skip_screenshots ar")
  case True
  assume "capture_phase en ar items = (r, tr)"
  with True show ?thesis by (simp add: capture_phase_def)
next
  case False
  assume "capture_phase en ar items = (r, tr)"
  with False have "capture_loop en (a_shots_dir ar) 1 items (files en) [] = (r, tr)"
    by (simp add: capture_phase_def)
  then show ?thesis by (rule capture_loop_no_composer) simp
qed

section \<open>Claims\<close>

text \<open>
  C10: every line returned by \<open>wrap_text\<close> is a non-empty string, and \<open>wrap_text\<close> of the empty
  string or of a string of whitespace only is the empty list.
\<close>

theorem wrap_text_lines_nonempty:
  "(\<forall>l \<in> set (wrap_text tlen text fnt mw). l \<noteq> []) \<and>
   ((\<forall>c \<in> set text. is_space c) \<longrightarrow> wrap_text tlen text fnt mw = [])"
proof
  show "\<forall>l \<in> set (wrap_text tlen text fnt mw). l \<noteq> []"
    unfolding wrap_text_def by (rule wrap_loop_nonempty) simp
next
  show "(\<forall>c \<in> set text. is_space c) \<longrightarrow> wrap_text tlen text fnt mw = []"
    by (simp add: wrap_text_def split_all_space)
qed

theorem wrap_text_lines_nonempty_witness:
  "list_all is_space ''  '' \<and>
   wrap_text (\<lambda>f s. of_nat (length s)) ''  '' \<lparr>fsize = 64, fbold = True\<rparr> 940 = [] \<and>
   wrap_text (\<lambda>f s. of_nat (length s)) '' ab  cd '' \<lparr>fsize = 64, fbold = True\<rparr> 940 = [''ab cd'']"
  using wrap_text_lines_nonempty [of "\<lambda>f s. of_nat (length s)" "''  ''" "\<lparr>fsize = 64, fbold = True\<rparr>" 940]
    wrap_text_lines_nonempty [of "\<lambda>f s. of_nat (length s)" "'' ab  cd ''" "\<lparr>fsize = 64, fbold = True\<rparr>" 940]
  by (simp add: is_space_def wrap_text_def split_def strip_def lstrip_def rstrip_def)

text \<open>
  C2: no line returned by \<open>wrap_text\<close> is wider than the maximum width, unless the line is a
  single word of the text that is itself wider than the maximum.
\<close>

theorem wrap_text_width:
  "\<forall>l \<in> set (wrap_text tlen text fnt mw).
     tlen fnt l \<le> of_int mw \<or> (l \<in> set (split text) \<and> split l = [l] \<and> of_int mw < tlen fnt l)"
proof
  fix l
  assume l: "l \<in> set (wrap_text tlen text fnt mw)"
  have "\<forall>l \<in> set (wrap_loop tlen fnt mw (split text) [] []). tlen fnt l \<le> of_int mw \<or> l \<in> set (split text)"
    by (rule wrap_loop_width) simp_all
  with l have d: "tlen fnt l \<le> of_int mw \<or> l \<in> set (split text)"
    by (simp add: wrap_text_def)
  show "tlen fnt l \<le> of_int mw \<or> (l \<in> set (split text) \<and> split l = [l] \<and> of_int mw < tlen fnt l)"
  proof (cases "tlen fnt l \<le> of_int mw")
    case True
    then show ?thesis by blast
  next
    case False
    with d have m: "l \<in> set (split text)" by blast
    then have "split l = [l]"
      using split_words [OF m] by (simp add: split_word)
    with m False show ?thesis by simp
  qed
qed

theorem wrap_text_width_witness:
  "''efghijk'' \<in> set (wrap_text (\<lambda>f s. of_nat (length s)) ''ab cd  efghijk h'' \<lparr>fsize = 64, fbold = True\<rparr> 5) \<and>
   ''efghijk'' \<in> set (split ''ab cd  efghijk h'') \<and>
   split ''efghijk'' = [''efghijk''] \<and>
   (of_int 5 :: rat) < of_nat (length ''efghijk'')"
  using wrap_text_width [of "\<lambda>f s. of_nat (length s)" "''ab cd  efghijk h''" "\<lparr>fsize = 64, fbold = True\<rparr>" 5]
  by (simp add: wrap_text_def split_def strip_def lstrip_def rstrip_def is_space_def)

text \<open>
  C3: \<open>wrap_text\<close> is a function of the text, the font and the width; splitting the lines
  joined with blanks gives back the words of the text in order, and after the slice to the
  first three lines it gives a prefix of them.
\<close>

theorem wrap_text_word_sequence:
  "split (join_space (wrap_text tlen text fnt mw)) = split text \<and>
   prefix (split (join_space (take 3 (wrap_text tlen text fnt mw)))) (split text)"
proof
  show "split (join_space (wrap_text tlen text fnt mw)) = split text"
    by (simp only: split_join_space wrap_text_concat_split)
next
  have "split (join_space (take 3 (wrap_text tlen text fnt mw))) =
        concat (take 3 (map split (wrap_text tlen text fnt mw)))"
    by (simp only: split_join_space take_map)
  moreover have "prefix (concat (take 3 (map split (wrap_text tlen text fnt mw))))
                   (concat (map split (wrap_text tlen text fnt mw)))"
    by (rule prefix_concat_take)
  ultimately show "prefix (split (join_space (take 3 (wrap_text tlen text fnt mw)))) (split text)"
    by (simp only: wrap_text_concat_split)
qed

theorem wrap_text_word_sequence_witness:
  "wrap_text (\<lambda>f s. of_nat (length s) * 400) ''aa bb  cc dd ee'' \<lparr>fsize = 64, fbold = True\<rparr> 940 =
     [''aa'', ''bb'', ''cc'', ''dd'', ''ee''] \<and>
   split (join_space (take 3 (wrap_text (\<lambda>f s. of_nat (length s) * 400) ''aa bb  cc dd ee''
     \<lparr>fsize = 64, fbold = True\<rparr> 940))) = [''aa'', ''bb'', ''cc''] \<and>
   split ''aa bb  cc dd ee'' = [''aa'', ''bb'', ''cc'', ''dd'', ''ee'']"
  using wrap_text_word_sequence [of "\<lambda>f s. of_nat (length s) * 400" "''aa bb  cc dd ee''"
      "\<lparr>fsize = 64, fbold = True\<rparr>" 940]
  by (simp add: wrap_text_def split_def strip_def lstrip_def rstrip_def is_space_def)

text \<open>
  C1: for a source image of positive size and the canvas 1080 by 1920, the image returned by
  \<open>fit_cover\<close> is 1080 by 1920 and has no padded region. The size holds
  (\<open>fit_cover_out_size\<close>); the second part fails for an image of 800 by 440: the float
  \<open>1920 / 440\<close> times 440 is below 1920, \<open>int\<close> truncates it to 1919, the crop box starts
  at row \<open>-1\<close>, and the first row of the result lies outside the resized image.
\<close>

theorem fit_cover_800_440_padded:
  "fit_cover (800, 440) 1080 1920 =
     Inr \<lparr>resized_size = (3490, 1919), crop_box = (1205, - 1, 2285, 1919)\<rparr> \<and>
   out_size \<lparr>resized_size = (3490, 1919), crop_box = (1205, - 1, 2285, 1919)\<rparr> = (1080, 1920) \<and>
   padded \<lparr>resized_size = (3490, 1919), crop_box = (1205, - 1, 2285, 1919)\<rparr> 0 0"
  by (simp add: fit_cover_def scale_800_440 float_mul_440 float_mul_800 int_of_float_def Let_def
      out_size_def padded_def)

text \<open>
  C4: in \<open>render\<close> the title, the subtitle and the impact text are each wrapped by
  \<open>wrap_text\<close> on their own and cut to the first three lines; the strings drawn for a block
  are exactly those lines, so anything wrapped beyond the third line is dropped without a
  mark, and \<open>render_text\<close> is total.
\<close>

theorem render_blocks:
  "texts_in (load_font 64 True) (render_text tlen item) =
     take 3 (wrap_text tlen (strip (item_get item ''title'' [])) (load_font 64 True) 940) \<and>
   texts_in (load_font 42 False) (render_text tlen item) =
     take 3 (wrap_text tlen (strip (item_get item ''subtitle'' [])) (load_font 42 False) 940) \<and>
   texts_in (load_font 48 True) (render_text tlen item) =
     take 3 (wrap_text tlen (strip (item_get item ''impact'' [])) (load_font 48 True) 940) \<and>
   length (texts_in (load_font 64 True) (render_text tlen item)) \<le> 3 \<and>
   length (texts_in (load_font 42 False) (render_text tlen item)) \<le> 3 \<and>
   length (texts_in (load_font 48 True) (render_text tlen item)) \<le> 3"
  by (simp add: render_text_def Let_def case_prod_beta texts_in_append texts_in_draw_lines_same
      texts_in_draw_lines_other wrap_text_empty load_font_def W_def)

theorem render_blocks_witness:
  "wrap_text (\<lambda>f s. of_nat (length s) * 400) ''aa bb cc dd ee'' (load_font 64 True) 940 =
     [''aa'', ''bb'', ''cc'', ''dd'', ''ee''] \<and>
   texts_in (load_font 64 True)
     (render_text (\<lambda>f s. of_nat (length s) * 400) [''title'' \<mapsto> ''aa bb cc dd ee'']) =
     [''aa'', ''bb'', ''cc'']"
  using render_blocks [of "\<lambda>f s. of_nat (length s) * 400" "[''title'' \<mapsto> ''aa bb cc dd ee'']"]
  by (simp add: wrap_text_def split_def strip_def lstrip_def rstrip_def is_space_def item_get_def)

text \<open>
  C8: the footer drawn by \<open>render\<close> is the URL without its scheme prefix, cut to 60
  characters, the rest of the URL unchanged. \<open>str.replace\<close> removes every occurrence of
  the two scheme strings, so a scheme inside the URL is removed as well: the query of the URL
  below loses its \<open>http://\<close>.
\<close>

theorem footer_inner_scheme_removed:
  "texts_in (load_font 28 False)
     (render_text (\<lambda>f s. of_nat (length s)) [''url'' \<mapsto> ''https://example.com/?next=http://b.com'']) =
   [''example.com/?next=b.com'']"
  by (simp add: render_text_def Let_def case_prod_beta texts_in_append texts_in_draw_lines_same
      texts_in_draw_lines_other wrap_text_empty load_font_def W_def H_def item_get_def strip_def
      lstrip_def rstrip_def)

text \<open>
  C5: of the qualifying entries with one URL, from whichever feeds, only the one met first
  (feeds in file order, entries in feed order) survives the dedupe, and no URL occurs twice,
  in the deduplicated list or in the list that \<open>main\<close> prints.
\<close>

theorem dedupe_first_seen:
  "distinct (map url (dedupe cands)) \<and>
   url ` set (dedupe cands) = url ` set cands \<and>
   subseq (dedupe cands) cands \<and>
   (\<forall>c \<in> set (dedupe cands). find (\<lambda>x. url x = url c) cands = Some c) \<and>
   (\<forall>out. main_pick parse keywords isoformat now feeds hours limit = Inr out \<longrightarrow>
      distinct (map url out) \<and>
      (\<forall>c \<in> set out. \<exists>cutoff. cutoff_of now hours = Inr cutoff \<and>
         find (\<lambda>x. url x = url c) (collect parse keywords isoformat cutoff feeds) = Some c))"
proof (intro conjI allI impI)
  show "distinct (map url (dedupe cands))"
    by (simp add: dedupe_def dedupe_loop_distinct)
  show "url ` set (dedupe cands) = url ` set cands"
    by (simp add: dedupe_def dedupe_loop_urls)
  show "subseq (dedupe cands) cands"
    by (simp add: dedupe_def dedupe_loop_subseq)
  show "\<forall>c \<in> set (dedupe cands). find (\<lambda>x. url x = url c) cands = Some c"
    by (simp add: dedupe_def dedupe_loop_first)
next
  fix out
  assume m: "main_pick parse keywords isoformat now feeds hours limit = Inr out"
  then obtain cutoff where c: "cutoff_of now hours = Inr cutoff"
    and out: "out = slice_to limit (sort_newest_first (dedupe (collect parse keywords isoformat cutoff feeds)))"
    by (auto simp: main_pick_def split: sum.splits)
  let ?cs = "collect parse keywords isoformat cutoff feeds"
  have "mset (map url (sort_newest_first (dedupe ?cs))) = mset (map url (dedupe ?cs))"
    by (simp only: mset_map sort_newest_first_mset)
  then have "distinct (map url (sort_newest_first (dedupe ?cs))) = distinct (map url (dedupe ?cs))"
    by (rule mset_eq_imp_distinct_iff)
  then have d: "distinct (map url (sort_newest_first (dedupe ?cs)))"
    by (simp add: dedupe_def dedupe_loop_distinct)
  show "distinct (map url out)"
    unfolding out using slice_to_sublist [of limit "sort_newest_first (dedupe ?cs)" url] d by blast
  have sub: "set out \<subseteq> set (dedupe ?cs)"
  proof -
    have "set out \<subseteq> set (sort_newest_first (dedupe ?cs))"
      unfolding out using slice_to_sublist [of limit "sort_newest_first (dedupe ?cs)" url] by blast
    also have "\<dots> = set (dedupe ?cs)"
      using sort_newest_first_mset [of "dedupe ?cs"] by (rule mset_eq_setD)
    finally show ?thesis .
  qed
  show "\<forall>c \<in> set out. \<exists>cutoff. cutoff_of now hours = Inr cutoff \<and>
         find (\<lambda>x. url x = url c) (collect parse keywords isoformat cutoff feeds) = Some c"
  proof
    fix x
    assume "x \<in> set out"
    with sub have "x \<in> set (dedupe_loop {} [] ?cs)" by (auto simp: dedupe_def)
    then have "find (\<lambda>y. url y = url x) ?cs = Some x" by (rule dedupe_loop_first)
    with c show "\<exists>cutoff. cutoff_of now hours = Inr cutoff \<and>
         find (\<lambda>y. url y = url x) (collect parse keywords isoformat cutoff feeds) = Some x"
      by blast
  qed
qed


theorem dedupe_first_seen_witness:
  "collect
     (\<lambda>u. if u = ''f1''
      then \<lparr>feed_title = Some ''A'', feed_link = None,
             entries = [\<lparr>e_title = Some ''AI one'', e_link = Some ''http://x'', e_summary = None,
                         published_parsed = None, updated_parsed = None\<rparr>]\<rparr>
      else \<lparr>feed_title = Some ''B'', feed_link = None,
             entries = [\<lparr>e_title = Some ''AI two'', e_link = Some ''http://x'', e_summary = None,
                         published_parsed = None, updated_parsed = None\<rparr>]\<rparr>)
     (\<lambda>s. True) (\<lambda>t. []) 62999913600000000 [''f1'', ''f2''] =
     [\<lparr>title = ''AI one'', url = ''http://x'', source = ''A'', published = None\<rparr>,
      \<lparr>title = ''AI two'', url = ''http://x'', source = ''B'', published = None\<rparr>] \<and>
   main_pick
     (\<lambda>u. if u = ''f1''
      then \<lparr>feed_title = Some ''A'', feed_link = None,
             entries = [\<lparr>e_title = Some ''AI one'', e_link = Some ''http://x'', e_summary = None,
                         published_parsed = None, updated_parsed = None\<rparr>]\<rparr>
      else \<lparr>feed_title = Some ''B'', feed_link = None,
             entries = [\<lparr>e_title = Some ''AI two'', e_link = Some ''http://x'', e_summary = None,
                         published_parsed = None, updated_parsed = None\<rparr>]\<rparr>)
     (\<lambda>s. True) (\<lambda>t. []) 63000000000000000 [''f1'', ''f2''] 24 15 =
     Inr [\<lparr>title = ''AI one'', url = ''http://x'', source = ''A'', published = None\<rparr>]"
  using dedupe_first_seen [of
      "[\<lparr>title = ''AI one'', url = ''http://x'', source = ''A'', published = None\<rparr>,
        \<lparr>title = ''AI two'', url = ''http://x'', source = ''B'', published = None\<rparr>]"
      "(\<lambda>u. if u = ''f1''
        then \<lparr>feed_title = Some ''A'', feed_link = None,
               entries = [\<lparr>e_title = Some ''AI one'', e_link = Some ''http://x'', e_summary = None,
                           published_parsed = None, updated_parsed = None\<rparr>]\<rparr>
        else \<lparr>feed_title = Some ''B'', feed_link = None,
               entries = [\<lparr>e_title = Some ''AI two'', e_link = Some ''http://x'', e_summary = None,
                           published_parsed = None, updated_parsed = None\<rparr>]\<rparr>)"
      "\<lambda>s. True" "\<lambda>t. []" 63000000000000000 "[''f1'', ''f2'']" 24 15]
  by (simp add: main_pick_def cutoff_of_def datetime_end_def collect_def feed_source_def
      or_empty_def entry_candidate_def parse_dt_def strip_def lstrip_def rstrip_def is_space_def
      List.map_filter_def dedupe_def sort_newest_first_def slice_to_def Let_def)

text \<open>
  C6: the list that \<open>main\<close> prints is the deduplicated candidate list sorted descending by
  the published string and cut to the limit; a missing timestamp counts as the empty string,
  so candidates without one come after every candidate with a non-empty one; the sort is
  stable: candidates with the same key keep the order in which they were found.
\<close>

theorem main_pick_sorted_stable:
  "(\<forall>c. sort_key_published c = (case published c of None \<Rightarrow> [] | Some s \<Rightarrow> s)) \<and>
   mset (sort_newest_first cs) = mset cs \<and>
   sorted (rev (map sort_key_published (sort_newest_first cs))) \<and>
   (\<forall>k. filter (\<lambda>c. sort_key_published c = k) (sort_newest_first cs) =
        filter (\<lambda>c. sort_key_published c = k) cs) \<and>
   (\<forall>i j. i < length cs \<and> j < length cs \<and>
      published (sort_newest_first cs ! i) = None \<and>
      sort_key_published (sort_newest_first cs ! j) \<noteq> [] \<longrightarrow> j < i) \<and>
   (\<forall>out. main_pick parse keywords isoformat now feeds hours limit = Inr out \<longrightarrow>
      (\<exists>cutoff. cutoff_of now hours = Inr cutoff \<and>
         out = slice_to limit
                 (sort_newest_first (dedupe (collect parse keywords isoformat cutoff feeds))) \<and>
         (\<forall>k. prefix (filter (\<lambda>c. sort_key_published c = k) out)
                (filter (\<lambda>c. sort_key_published c = k)
                   (dedupe (collect parse keywords isoformat cutoff feeds))))) \<and>
      sorted (rev (map sort_key_published out)) \<and>
      (\<forall>i j. i < length out \<and> j < length out \<and>
         published (out ! i) = None \<and> sort_key_published (out ! j) \<noteq> [] \<longrightarrow> j < i))"
proof (intro conjI allI impI)
  show "mset (sort_newest_first cs) = mset cs" by (rule sort_newest_first_mset)
  show "sorted (rev (map sort_key_published (sort_newest_first cs)))"
    by (rule sort_newest_first_sorted)
  show "sort_key_published c = (case published c of None \<Rightarrow> [] | Some s \<Rightarrow> s)" for c
    by (simp add: sort_key_published_def or_empty_def)
  show "filter (\<lambda>c. sort_key_published c = k) (sort_newest_first cs) =
        filter (\<lambda>c. sort_key_published c = k) cs" for k
    by (rule sort_newest_first_stable)
next
  fix i j
  assume a: "i < length cs \<and> j < length cs \<and>
      published (sort_newest_first cs ! i) = None \<and>
      sort_key_published (sort_newest_first cs ! j) \<noteq> []"
  have len: "length (sort_newest_first cs) = length cs"
    by (simp add: sort_newest_first_def)
  show "j < i"
    by (rule sort_newest_first_none_last [of i cs j]) (simp_all add: len a)
next
  fix out
  assume m: "main_pick parse keywords isoformat now feeds hours limit = Inr out"
  then obtain cutoff where c: "cutoff_of now hours = Inr cutoff"
    and out: "out = slice_to limit
                (sort_newest_first (dedupe (collect parse keywords isoformat cutoff feeds)))"
    unfolding main_pick_Inr by blast
  let ?ded = "dedupe (collect parse keywords isoformat cutoff feeds)"
  obtain n where n: "out = take n (sort_newest_first ?ded)"
    using slice_to_take [of limit "sort_newest_first ?ded"] out by auto
  have st: "prefix (filter (\<lambda>c. sort_key_published c = k) out)
              (filter (\<lambda>c. sort_key_published c = k) ?ded)" for k
  proof -
    have "prefix (filter (\<lambda>c. sort_key_published c = k) (take n (sort_newest_first ?ded)))
            (filter (\<lambda>c. sort_key_published c = k) (sort_newest_first ?ded))"
      by (rule filter_take_prefix)
    then show ?thesis by (simp only: n sort_newest_first_stable)
  qed
  from c out st
  show "\<exists>cutoff. cutoff_of now hours = Inr cutoff \<and>
         out = slice_to limit
                 (sort_newest_first (dedupe (collect parse keywords isoformat cutoff feeds))) \<and>
         (\<forall>k. prefix (filter (\<lambda>c. sort_key_published c = k) out)
                (filter (\<lambda>c. sort_key_published c = k)
                   (dedupe (collect parse keywords isoformat cutoff feeds))))"
    by blast
  show srt: "sorted (rev (map sort_key_published out))"
    unfolding n by (rule descending_take) (rule sort_newest_first_sorted)
  fix i j
  assume "i < length out \<and> j < length out \<and>
         published (out ! i) = None \<and> sort_key_published (out ! j) \<noteq> []"
  then show "j < i"
    using descending_none_last [OF srt, of i j] by blast
qed

theorem main_pick_sorted_stable_witness:
  "main_pick
     (\<lambda>u. \<lparr>feed_title = Some ''A'', feed_link = None, entries =
         [\<lparr>e_title = Some ''AI a'', e_link = Some ''u1'', e_summary = None,
           published_parsed = Some 62999992800000000, updated_parsed = None\<rparr>,
          \<lparr>e_title = Some ''AI b'', e_link = Some ''u2'', e_summary = None,
           published_parsed = None, updated_parsed = None\<rparr>,
          \<lparr>e_title = Some ''AI c'', e_link = Some ''u3'', e_summary = None,
           published_parsed = Some 62999996400000000, updated_parsed = None\<rparr>,
          \<lparr>e_title = Some ''AI d'', e_link = Some ''u4'', e_summary = None,
           published_parsed = Some 62999992800000000, updated_parsed = None\<rparr>]\<rparr>)
     (\<lambda>s. True)
     (\<lambda>t. if t = 62999996400000000 then ''2024-01-02T00:00:00Z'' else ''2024-01-01T00:00:00Z'')
     63000000000000000 [''f1''] 24 15 =
   Inr [\<lparr>title = ''AI c'', url = ''u3'', source = ''A'', published = Some ''2024-01-02T00:00:00Z''\<rparr>,
        \<lparr>title = ''AI a'', url = ''u1'', source = ''A'', published = Some ''2024-01-01T00:00:00Z''\<rparr>,
        \<lparr>title = ''AI d'', url = ''u4'', source = ''A'', published = Some ''2024-01-01T00:00:00Z''\<rparr>,
        \<lparr>title = ''AI b'', url = ''u2'', source = ''A'', published = None\<rparr>]"
  using main_pick_sorted_stable [of "[]"
     "(\<lambda>u. \<lparr>feed_title = Some ''A'', feed_link = None, entries =
         [\<lparr>e_title = Some ''AI a'', e_link = Some ''u1'', e_summary = None,
           published_parsed = Some 62999992800000000, updated_parsed = None\<rparr>,
          \<lparr>e_title = Some ''AI b'', e_link = Some ''u2'', e_summary = None,
           published_parsed = None, updated_parsed = None\<rparr>,
          \<lparr>e_title = Some ''AI c'', e_link = Some ''u3'', e_summary = None,
           published_parsed = Some 62999996400000000, updated_parsed = None\<rparr>,
          \<lparr>e_title = Some ''AI d'', e_link = Some ''u4'', e_summary = None,
           published_parsed = Some 62999992800000000, updated_parsed = None\<rparr>]\<rparr>)"
     "\<lambda>s. True"
     "(\<lambda>t. if t = 62999996400000000 then ''2024-01-02T00:00:00Z'' else ''2024-01-01T00:00:00Z'')"
     63000000000000000 "[''f1'']" 24 15]
  by (simp add: main_pick_def cutoff_of_def datetime_end_def collect_def feed_source_def
      or_empty_def entry_candidate_def parse_dt_def strip_def lstrip_def rstrip_def is_space_def
      dedupe_def sort_newest_first_def sort_key_published_def slice_to_def Let_def
      less_eq_char_def less_char_def)

text \<open>
  C7: in \<open>main\<close> the cutoff is \<open>now\<close> minus the configured hours, and the candidates are the
  entries that \<open>entry_candidate\<close> keeps at that cutoff. An entry that matches the keywords
  and has a link is dropped exactly when its time is known and strictly before the cutoff;
  with a window of 24 hours an entry dated 25 hours ago is dropped, and an entry without a
  time passes whatever the window. The time of an entry is \<open>parse_dt\<close>, the value \<open>main\<close>
  stores as \<open>published\<close>: the published time, or the updated time when there is no published
  one.
\<close>

theorem recency_filter:
  "(cutoff_of now hours = Inr cutoff \<longrightarrow> cutoff = now - hours * 3600 * 1000000) \<and>
   (cutoff_of now hours = Inr cutoff \<and>
    keywords (strip (or_empty (e_title e)) @ '' '' @ strip (or_empty (e_summary e))) \<and>
    strip (or_empty (e_link e)) \<noteq> [] \<longrightarrow>
      (entry_candidate keywords isoformat cutoff src e = None) =
      (\<exists>t. parse_dt e = Some t \<and> t < now - hours * 3600 * 1000000)) \<and>
   (cutoff_of now hours = Inr cutoff \<and>
    (\<exists>t. parse_dt e = Some t \<and> t < now - hours * 3600 * 1000000) \<longrightarrow>
      entry_candidate keywords isoformat cutoff src e = None) \<and>
   (\<forall>out. main_pick parse keywords isoformat now feeds hours limit = Inr out \<longrightarrow>
      (\<exists>c. cutoff_of now hours = Inr c \<and> c = now - hours * 3600 * 1000000 \<and>
         out = slice_to limit
                 (sort_newest_first (dedupe (collect parse keywords isoformat c feeds))) \<and>
         (\<forall>x. (x \<in> set (collect parse keywords isoformat c feeds)) =
            (\<exists>u \<in> set feeds. \<exists>e' \<in> set (entries (parse u)).
               entry_candidate keywords isoformat c (feed_source (parse u) u) e' = Some x)))) \<and>
   (keywords (strip (or_empty (e_title e)) @ '' '' @ strip (or_empty (e_summary e))) \<and>
    strip (or_empty (e_link e)) \<noteq> [] \<longrightarrow>
      (entry_candidate keywords isoformat cutoff' src e = None) =
      (\<exists>t. parse_dt e = Some t \<and> t < cutoff')) \<and>
   ((\<exists>t. parse_dt e = Some t \<and> t < cutoff') \<longrightarrow>
      entry_candidate keywords isoformat cutoff' src e = None) \<and>
   (cutoff_of now 24 = Inr cutoff24 \<and> parse_dt e = Some (now - 25 * 3600 * 1000000) \<longrightarrow>
      entry_candidate keywords isoformat cutoff24 src e = None) \<and>
   (parse_dt e = None \<and>
    keywords (strip (or_empty (e_title e)) @ '' '' @ strip (or_empty (e_summary e))) \<and>
    strip (or_empty (e_link e)) \<noteq> [] \<longrightarrow>
      entry_candidate keywords isoformat cutoff' src e \<noteq> None)"
proof (intro conjI impI allI)
  assume "cutoff_of now hours = Inr cutoff"
  then show "cutoff = now - hours * 3600 * 1000000"
    by (simp add: cutoff_of_Inr)
next
  assume a: "cutoff_of now hours = Inr cutoff \<and>
    keywords (strip (or_empty (e_title e)) @ '' '' @ strip (or_empty (e_summary e))) \<and>
    strip (or_empty (e_link e)) \<noteq> []"
  then have c: "cutoff = now - hours * 3600 * 1000000"
    by (simp add: cutoff_of_Inr)
  from a have "(entry_candidate keywords isoformat cutoff src e = None) =
      (\<exists>t. parse_dt e = Some t \<and> t < cutoff)"
    by (cases "parse_dt e") (simp_all add: entry_candidate_def Let_def)
  then show "(entry_candidate keywords isoformat cutoff src e = None) =
      (\<exists>t. parse_dt e = Some t \<and> t < now - hours * 3600 * 1000000)"
    by (simp only: c)
next
  assume a: "cutoff_of now hours = Inr cutoff \<and>
    (\<exists>t. parse_dt e = Some t \<and> t < now - hours * 3600 * 1000000)"
  then have c: "cutoff = now - hours * 3600 * 1000000"
    by (simp add: cutoff_of_Inr)
  with a have "\<exists>t. parse_dt e = Some t \<and> t < cutoff" by simp
  then show "entry_candidate keywords isoformat cutoff src e = None"
    by (auto simp: entry_candidate_def Let_def)
next
  fix out
  assume "main_pick parse keywords isoformat now feeds hours limit = Inr out"
  then obtain c where c: "cutoff_of now hours = Inr c"
    and out: "out = slice_to limit
                (sort_newest_first (dedupe (collect parse keywords isoformat c feeds)))"
    unfolding main_pick_Inr by blast
  from c have v: "c = now - hours * 3600 * 1000000" by (simp add: cutoff_of_Inr)
  have sc: "\<forall>x. (x \<in> set (collect parse keywords isoformat c feeds)) =
            (\<exists>u \<in> set feeds. \<exists>e' \<in> set (entries (parse u)).
               entry_candidate keywords isoformat c (feed_source (parse u) u) e' = Some x)"
    by (simp add: set_collect)
  from c v out sc
  show "\<exists>c. cutoff_of now hours = Inr c \<and> c = now - hours * 3600 * 1000000 \<and>
         out = slice_to limit
                 (sort_newest_first (dedupe (collect parse keywords isoformat c feeds))) \<and>
         (\<forall>x. (x \<in> set (collect parse keywords isoformat c feeds)) =
            (\<exists>u \<in> set feeds. \<exists>e' \<in> set (entries (parse u)).
               entry_candidate keywords isoformat c (feed_source (parse u) u) e' = Some x))"
    by blast
next
  assume "keywords (strip (or_empty (e_title e)) @ '' '' @ strip (or_empty (e_summary e))) \<and>
    strip (or_empty (e_link e)) \<noteq> []"
  then show "(entry_candidate keywords isoformat cutoff' src e = None) =
      (\<exists>t. parse_dt e = Some t \<and> t < cutoff')"
    by (cases "parse_dt e") (simp_all add: entry_candidate_def Let_def)
next
  assume "\<exists>t. parse_dt e = Some t \<and> t < cutoff'"
  then show "entry_candidate keywords isoformat cutoff' src e = None"
    by (auto simp: entry_candidate_def Let_def)
next
  assume a: "cutoff_of now 24 = Inr cutoff24 \<and> parse_dt e = Some (now - 25 * 3600 * 1000000)"
  then have "cutoff24 = now - 24 * 3600 * 1000000"
    by (simp add: cutoff_of_Inr)
  with a show "entry_candidate keywords isoformat cutoff24 src e = None"
    by (simp add: entry_candidate_def Let_def)
next
  assume "parse_dt e = None \<and>
    keywords (strip (or_empty (e_title e)) @ '' '' @ strip (or_empty (e_summary e))) \<and>
    strip (or_empty (e_link e)) \<noteq> []"
  then show "entry_candidate keywords isoformat cutoff' src e \<noteq> None"
    by (simp add: entry_candidate_def Let_def)
qed

theorem recency_filter_witness:
  "cutoff_of 63000000000000000 24 = Inr 62999913600000000 \<and>
   cutoff_of 63000000000000000 48 = Inr 62999827200000000 \<and>
   parse_dt \<lparr>e_title = Some ''AI old'', e_link = Some ''u1'', e_summary = None,
           published_parsed = Some 62999910000000000, updated_parsed = None\<rparr> = Some (63000000000000000 - 25 * 3600 * 1000000) \<and>
   main_pick
     (\<lambda>u. \<lparr>feed_title = Some ''A'', feed_link = None, entries =
         [\<lparr>e_title = Some ''AI old'', e_link = Some ''u1'', e_summary = None,
           published_parsed = Some 62999910000000000, updated_parsed = None\<rparr>,
          \<lparr>e_title = Some ''AI undated'', e_link = Some ''u2'', e_summary = None,
           published_parsed = None, updated_parsed = None\<rparr>]\<rparr>)
     (\<lambda>s. True) (\<lambda>t. ''2024-01-01T00:00:00Z'') 63000000000000000 [''f1''] 24 15 =
   Inr [\<lparr>title = ''AI undated'', url = ''u2'', source = ''A'', published = None\<rparr>] \<and>
   main_pick
     (\<lambda>u. \<lparr>feed_title = Some ''A'', feed_link = None, entries =
         [\<lparr>e_title = Some ''AI old'', e_link = Some ''u1'', e_summary = None,
           published_parsed = Some 62999910000000000, updated_parsed = None\<rparr>,
          \<lparr>e_title = Some ''AI undated'', e_link = Some ''u2'', e_summary = None,
           published_parsed = None, updated_parsed = None\<rparr>]\<rparr>)
     (\<lambda>s. True) (\<lambda>t. ''2024-01-01T00:00:00Z'') 63000000000000000 [''f1''] 48 15 =
   Inr [\<lparr>title = ''AI old'', url = ''u1'', source = ''A'', published = Some ''2024-01-01T00:00:00Z''\<rparr>,
        \<lparr>title = ''AI undated'', url = ''u2'', source = ''A'', published = None\<rparr>]"
  using recency_filter [of 63000000000000000 24 62999913600000000 "\<lambda>s. True"
     "\<lparr>e_title = Some ''AI old'', e_link = Some ''u1'', e_summary = None,
           published_parsed = Some 62999910000000000, updated_parsed = None\<rparr>"
     "(\<lambda>t. ''2024-01-01T00:00:00Z'')" "''A''"
     "(\<lambda>u. \<lparr>feed_title = Some ''A'', feed_link = None, entries =
         [\<lparr>e_title = Some ''AI old'', e_link = Some ''u1'', e_summary = None,
           published_parsed = Some 62999910000000000, updated_parsed = None\<rparr>,
          \<lparr>e_title = Some ''AI undated'', e_link = Some ''u2'', e_summary = None,
           published_parsed = None, updated_parsed = None\<rparr>]\<rparr>)"
     "[''f1'']" 15 62999913600000000 62999913600000000]
    recency_filter [of 63000000000000000 48 62999827200000000 "\<lambda>s. True"
     "\<lparr>e_title = Some ''AI old'', e_link = Some ''u1'', e_summary = None,
           published_parsed = Some 62999910000000000, updated_parsed = None\<rparr>"
     "(\<lambda>t. ''2024-01-01T00:00:00Z'')" "''A''"
     "(\<lambda>u. \<lparr>feed_title = Some ''A'', feed_link = None, entries =
         [\<lparr>e_title = Some ''AI old'', e_link = Some ''u1'', e_summary = None,
           published_parsed = Some 62999910000000000, updated_parsed = None\<rparr>,
          \<lparr>e_title = Some ''AI undated'', e_link = Some ''u2'', e_summary = None,
           published_parsed = None, updated_parsed = None\<rparr>]\<rparr>)"
     "[''f1'']" 15 62999827200000000 62999913600000000]
  by (simp add: main_pick_def cutoff_of_def datetime_end_def collect_def feed_source_def
      or_empty_def entry_candidate_def parse_dt_def strip_def lstrip_def rstrip_def is_space_def
      dedupe_def sort_newest_first_def sort_key_published_def slice_to_def Let_def)

text \<open>
  C9: a missing items file, an empty item list and a missing screenshot
  \<open>shot_{i:02d}.png\<close> for some item index \<open>i\<close> from 1 each end the run with \<open>sys.exit\<close> and a
  message of its own, status 1, before the composer is started: the first two before anything
  is done, the third at the first missing index once the screenshots are taken or skipped.
\<close>

theorem configuration_errors_abort:
  "(a_items ar \<notin> files en \<longrightarrow>
      main_gen en ar = (Exit (FileNotFound (a_items ar)), [])) \<and>
   (a_items ar \<in> files en \<and> read_items en (a_items ar) = Some [] \<longrightarrow>
      main_gen en ar = (Exit ItemsEmpty, [])) \<and>
   (a_items ar \<in> files en \<and> read_items en (a_items ar) = Some items \<and> items \<noteq> [] \<and>
    capture_phase en ar items = (Inr fs, tr) \<and>
    1 \<le> i \<and> i \<le> length items \<and> path_join (a_shots_dir ar) (shot_name i) \<notin> fs \<longrightarrow>
      (\<exists>j. 1 \<le> j \<and> j \<le> i \<and>
         main_gen en ar = (Exit (ScreenshotMissing (path_join (a_shots_dir ar) (shot_name j))), tr)) \<and>
      (\<forall>a. Composer a \<notin> set tr)) \<and>
   (\<forall>m. exit_code (Exit m) \<noteq> 0)"
proof (intro conjI impI allI)
  assume "a_items ar \<notin> files en"
  then show "main_gen en ar = (Exit (FileNotFound (a_items ar)), [])"
    by (simp add: main_gen_def)
next
  assume "a_items ar \<in> files en \<and> read_items en (a_items ar) = Some []"
  then show "main_gen en ar = (Exit ItemsEmpty, [])"
    by (simp add: main_gen_def)
next
  assume a: "a_items ar \<in> files en \<and> read_items en (a_items ar) = Some items \<and> items \<noteq> [] \<and>
    capture_phase en ar items = (Inr fs, tr) \<and>
    1 \<le> i \<and> i \<le> length items \<and> path_join (a_shots_dir ar) (shot_name i) \<notin> fs"
  then obtain k where k: "i = 1 + k" "k < length items"
    by (cases i) auto
  with a have "path_join (a_shots_dir ar) (shot_name (1 + k)) \<notin> fs" by simp
  from augment_loop_missing [OF k(2) this, of "[]"]
  obtain j where j: "j \<le> k"
    "augment_loop (a_shots_dir ar) fs 1 items [] =
       Inl (ScreenshotMissing (path_join (a_shots_dir ar) (shot_name (1 + j))))"
    by blast
  have "main_gen en ar = (Exit (ScreenshotMissing (path_join (a_shots_dir ar) (shot_name (1 + j)))), tr)"
    using a j(2) by (simp add: main_gen_def)
  moreover have "1 \<le> 1 + j" "1 + j \<le> i" using j(1) k(1) by simp_all
  ultimately show "\<exists>j. 1 \<le> j \<and> j \<le> i \<and>
         main_gen en ar = (Exit (ScreenshotMissing (path_join (a_shots_dir ar) (shot_name j))), tr)"
    by blast
  from a show "Composer c \<notin> set tr" for c
    using capture_phase_no_composer [of en ar items "Inr fs" tr] by simp
next
  show "exit_code (Exit m) \<noteq> 0" for m by simp
qed

theorem configuration_errors_abort_witness:
  "main_gen
     \<lparr>files = {''items.json'', ''shots/shot_01.png''},
       read_items = (\<lambda>p. Some [[''url'' \<mapsto> ''http://x.test''], [''url'' \<mapsto> ''http://y.test'']]),
       take_screenshot = (\<lambda>u p. None), make_story_exists = True, run_make_story = (\<lambda>a. 0)\<rparr>
     \<lparr>a_items = ''items.json'', a_shots_dir = ''shots'', a_out_dir = ''out'',
       a_skip_screenshots = True\<rparr> =
     (Exit (ScreenshotMissing ''shots/shot_02.png''), []) \<and>
   main_gen
     \<lparr>files = {}, read_items = (\<lambda>p. None),
       take_screenshot = (\<lambda>u p. None), make_story_exists = True, run_make_story = (\<lambda>a. 0)\<rparr>
     \<lparr>a_items = ''items.json'', a_shots_dir = ''shots'', a_out_dir = ''out'',
       a_skip_screenshots = True\<rparr> =
     (Exit (FileNotFound ''items.json''), []) \<and>
   main_gen
     \<lparr>files = {''items.json''}, read_items = (\<lambda>p. Some []),
       take_screenshot = (\<lambda>u p. None), make_story_exists = True, run_make_story = (\<lambda>a. 0)\<rparr>
     \<lparr>a_items = ''items.json'', a_shots_dir = ''shots'', a_out_dir = ''out'',
       a_skip_screenshots = True\<rparr> =
     (Exit ItemsEmpty, [])"
proof -
  have shot: "shot_name 1 = ''shot_01.png''" "shot_name 2 = ''shot_02.png''"
    by (simp_all add: shot_name_def format_02d_def decimal.simps digit_def)
  have shot': "shot_name (Suc 0) = ''shot_01.png''" "shot_name (Suc (Suc 0)) = ''shot_02.png''"
    using shot by (simp_all add: numeral_2_eq_2)
  note facts = configuration_errors_abort [of
     "\<lparr>a_items = ''items.json'', a_shots_dir = ''shots'', a_out_dir = ''out'',
       a_skip_screenshots = True\<rparr>"
     "\<lparr>files = {''items.json'', ''shots/shot_01.png''},
       read_items = (\<lambda>p. Some [[''url'' \<mapsto> ''http://x.test''], [''url'' \<mapsto> ''http://y.test'']]),
       take_screenshot = (\<lambda>u p. None), make_story_exists = True, run_make_story = (\<lambda>a. 0)\<rparr>"
     "[[''url'' \<mapsto> ''http://x.test''], [''url'' \<mapsto> ''http://y.test'']]"
     "{''items.json'', ''shots/shot_01.png''}" "[]" 2]
    configuration_errors_abort [of
     "\<lparr>a_items = ''items.json'', a_shots_dir = ''shots'', a_out_dir = ''out'',
       a_skip_screenshots = True\<rparr>"
     "\<lparr>files = {}, read_items = (\<lambda>p. None),
       take_screenshot = (\<lambda>u p. None), make_story_exists = True, run_make_story = (\<lambda>a. 0)\<rparr>"]
    configuration_errors_abort [of
     "\<lparr>a_items = ''items.json'', a_shots_dir = ''shots'', a_out_dir = ''out'',
       a_skip_screenshots = True\<rparr>"
     "\<lparr>files = {''items.json''}, read_items = (\<lambda>p. Some []),
       take_screenshot = (\<lambda>u p. None), make_story_exists = True, run_make_story = (\<lambda>a. 0)\<rparr>"]
  have "path_join ''shots'' (shot_name 2) \<notin> {''items.json'', ''shots/shot_01.png''}"
    by (simp add: path_join_def shot)
  with facts(1) have "\<forall>a. Composer a \<notin> set ([] :: event list)"
    by (simp add: capture_phase_def)
  then show ?thesis
    by (simp add: main_gen_def capture_phase_def path_join_def shot shot' Let_def)
qed

end
